theory Spec2Isabelle
  imports Main "HOL-Library.Word" "HOL-Library.Sublist"
begin

section \<open>JavaScript strings\<close>

text \<open>
  A JavaScript string is a sequence of 16-bit code units. The regular expressions of
  \<^verbatim>\<open>getDiffSegments\<close> carry no \<^verbatim>\<open>u\<close> flag, so \<^verbatim>\<open>\s\<close> and \<^verbatim>\<open>trim\<close> both
  work on single code units.
\<close>

type_synonym jschar = "16 word"
type_synonym jsstring = "jschar list"

text \<open>
  The class \<^verbatim>\<open>\s\<close> of ECMAScript, which is also the set that \<^verbatim>\<open>String.prototype.trim\<close>
  strips: WhiteSpace (TAB, VT, FF, ZWNBSP and the Unicode space separators) together with
  LineTerminator (LF, CR, LS, PS).
\<close>

definition is_space :: "jschar \<Rightarrow> bool" where
  "is_space ch = (ch \<in> set [0x0009, 0x000A, 0x000B, 0x000C, 0x000D, 0x0020, 0x00A0, 0x1680,
      0x2000, 0x2001, 0x2002, 0x2003, 0x2004, 0x2005, 0x2006, 0x2007, 0x2008, 0x2009, 0x200A,
      0x2028, 0x2029, 0x202F, 0x205F, 0x3000, 0xFEFF])"

text \<open>Embedding of a string literal of Latin-1 characters, used for concrete inputs.\<close>

definition js_of :: "string \<Rightarrow> jsstring" where
  "js_of s = map of_char s"

text \<open>\<^verbatim>\<open>t.trim()\<close>: leading and trailing \<^const>\<open>is_space\<close> code units are removed.\<close>

definition trim :: "jsstring \<Rightarrow> jsstring" where
  "trim t = rev (dropWhile is_space (rev (dropWhile is_space t)))"

text \<open>\<^verbatim>\<open>/^\s+$/.test(t)\<close>: the string is not empty and consists of \<^verbatim>\<open>\s\<close> only.\<close>

definition test_ws :: "jsstring \<Rightarrow> bool" where
  "test_ws t = (t \<noteq> [] \<and> list_all is_space t)"

text \<open>
  \<^verbatim>\<open>/^\s+$/.test(x)\<close> on a value of type \<^verbatim>\<open>string | undefined\<close>; \<^verbatim>\<open>undefined\<close> is
  coerced to the string \<^verbatim>\<open>"undefined"\<close>, which fails the test.
\<close>

fun test_opt :: "jsstring option \<Rightarrow> bool" where
  "test_opt None = False"
| "test_opt (Some t) = test_ws t"

text \<open>
  Truthiness of a value of type \<^verbatim>\<open>string | undefined\<close>: \<^verbatim>\<open>undefined\<close> and the empty
  string are falsy.
\<close>

fun truthy :: "jsstring option \<Rightarrow> bool" where
  "truthy None = False"
| "truthy (Some t) = (t \<noteq> [])"

text \<open>\<^verbatim>\<open>xs[i]\<close> on an array: \<^verbatim>\<open>undefined\<close> out of range.\<close>

definition at :: "'a list \<Rightarrow> nat \<Rightarrow> 'a option" where
  "at xs k = (if k < length xs then Some (xs ! k) else None)"

text \<open>
  The decimal rendering of an array index inside a template literal.
\<close>

definition digit :: "nat \<Rightarrow> char" where
  "digit d = ''0123456789'' ! d"

function num_to_string :: "nat \<Rightarrow> string" where
  "num_to_string n =
     (if n < 10 then [digit n] else num_to_string (n div 10) @ [digit (n mod 10)])"
  by pat_completeness auto
termination
  by (relation "measure id") auto

declare num_to_string.simps [simp del]

section \<open>Tokenization\<close>

text \<open>
  \<^verbatim>\<open>s.split(/(\s+)/)\<close>: the string is cut at every maximal run of \<^verbatim>\<open>\s\<close>; because of the
  capture group the runs themselves are kept in the result. A run at the very start or the
  very end leaves an empty string beside it, and the empty input gives \<^verbatim>\<open>[""]\<close>.
\<close>

function split_ws :: "jsstring \<Rightarrow> jsstring list" where
  "split_ws s =
     (let w = takeWhile (\<lambda>ch. \<not> is_space ch) s;
          rest = dropWhile (\<lambda>ch. \<not> is_space ch) s
      in if rest = [] then [w]
         else w # takeWhile is_space rest # split_ws (dropWhile is_space rest))"
  by pat_completeness auto
termination
proof (relation "measure length", simp, goal_cases)
  case (1 s w rest)
  then have ne: "rest \<noteq> []" by simp
  have "is_space (hd rest)"
    using 1 hd_dropWhile[of "\<lambda>ch. \<not> is_space ch" s] by auto
  then have "length (dropWhile is_space rest) < length rest"
    using ne by (cases rest) (auto simp: less_Suc_eq_le length_dropWhile_le)
  also have "length rest \<le> length s"
    using 1 by (simp add: length_dropWhile_le)
  finally show ?case by simp
qed

declare split_ws.simps [simp del]

text \<open>\<^verbatim>\<open>s.split(/(\s+)/).filter(Boolean)\<close>: the empty strings are dropped.\<close>

definition tokenize :: "jsstring \<Rightarrow> jsstring list" where
  "tokenize s = filter (\<lambda>t. t \<noteq> []) (split_ws s)"

section \<open>Rendered segments\<close>

text \<open>
  A \<^verbatim>\<open>span\<close> element: its React key, its \<^verbatim>\<open>className\<close> (absent on the whitespace
  spans) and its child, the token, of type \<^verbatim>\<open>string | undefined\<close>.
\<close>

record node =
  key :: string
  className :: "string option"
  children :: "jsstring option"

definition cls_match :: string where
  "cls_match = ''text-slate-400''"

definition cls_orig :: string where
  "cls_orig = ''text-red-400/80 font-medium underline decoration-red-500/30 underline-offset-[6px] decoration-1''"

definition cls_corr :: string where
  "cls_corr = ''text-[#00f5b4] font-semibold''"

section \<open>The diff loop\<close>

text \<open>
  One iteration of the \<^verbatim>\<open>while\<close> loop of \<^verbatim>\<open>getDiffSegments\<close>, on the loop state
  \<open>(i, j, originalSegments, correctedSegments)\<close>. The source's \<^verbatim>\<open>o\<close> and \<^verbatim>\<open>c\<close> are
  \<open>ow\<close> and \<open>cw\<close> here (\<open>o\<close> is function composition in HOL).
\<close>

definition body ::
  "jsstring list \<Rightarrow> jsstring list \<Rightarrow> nat \<times> nat \<times> node list \<times> node list
     \<Rightarrow> nat \<times> nat \<times> node list \<times> node list" where
  "body wordsO wordsC st =
     (case st of (i, j, originalSegments, correctedSegments) \<Rightarrow>
      let ow = at wordsO i; cw = at wordsC j in
      if ow = cw then
        (if ow \<noteq> None then
           let n = \<lparr>key = ''match-'' @ num_to_string i @ ''-'' @ num_to_string j,
                    className = Some cls_match, children = ow\<rparr>
           in (i + 1, j + 1, originalSegments @ [n], correctedSegments @ [n])
         else (i + 1, j + 1, originalSegments, correctedSegments))
      else
        let oTrim = map_option trim ow; cTrim = map_option trim cw in
        if truthy oTrim \<and> truthy cTrim then
          (i + 1, j + 1,
           originalSegments @ [\<lparr>key = ''orig-err-'' @ num_to_string i,
                                 className = Some cls_orig, children = ow\<rparr>],
           correctedSegments @ [\<lparr>key = ''corr-fix-'' @ num_to_string j,
                                  className = Some cls_corr, children = cw\<rparr>])
        else if truthy oTrim then
          (i + 1, j,
           originalSegments @ [\<lparr>key = ''orig-del-'' @ num_to_string i,
                                 className = Some cls_orig, children = ow\<rparr>],
           correctedSegments)
        else if truthy cTrim then
          (i, j + 1, originalSegments,
           correctedSegments @ [\<lparr>key = ''corr-add-'' @ num_to_string j,
                                  className = Some cls_corr, children = cw\<rparr>])
        else
          let (i1, originalSegments1) =
                (if truthy ow \<and> test_opt ow then
                   (i + 1, originalSegments @ [\<lparr>key = ''ws-o-'' @ num_to_string i,
                                                 className = None, children = ow\<rparr>])
                 else (i, originalSegments));
              (j1, correctedSegments1) =
                (if truthy cw \<and> test_opt cw then
                   (j + 1, correctedSegments @ [\<lparr>key = ''ws-c-'' @ num_to_string j,
                                                  className = None, children = cw\<rparr>])
                 else (j, correctedSegments))
          in (i1, j1, originalSegments1, correctedSegments1))"

text \<open>
  The loop itself. Nothing in its text bounds the number of iterations, so it is a partial
  function: \<open>None\<close> stands for a run that never leaves the loop.
\<close>

partial_function (option) diff_loop ::
  "jsstring list \<Rightarrow> jsstring list \<Rightarrow> nat \<times> nat \<times> node list \<times> node list
     \<Rightarrow> (node list \<times> node list) option" where
  "diff_loop wordsO wordsC st =
     (if fst st < length wordsO \<or> fst (snd st) < length wordsC
      then diff_loop wordsO wordsC (body wordsO wordsC st)
      else Some (snd (snd st)))"

declare diff_loop.simps [code]

definition getDiffSegments :: "jsstring \<Rightarrow> jsstring \<Rightarrow> (node list \<times> node list) option" where
  "getDiffSegments original corrected =
     (let wordsO = tokenize original; wordsC = tokenize corrected
      in diff_loop wordsO wordsC (0, 0, [], []))"

section \<open>Reading the result\<close>

text \<open>The text a segment shows: its child, nothing for \<^verbatim>\<open>undefined\<close>.\<close>

definition text_of :: "node \<Rightarrow> jsstring" where
  "text_of n = (case children n of None \<Rightarrow> [] | Some t \<Rightarrow> t)"

text \<open>\<open>starts_with p s\<close>: the string \<open>s\<close> begins with \<open>p\<close>.\<close>

fun starts_with :: "string \<Rightarrow> string \<Rightarrow> bool" where
  "starts_with [] s = True"
| "starts_with (p # ps) [] = False"
| "starts_with (p # ps) (x # xs) = (p = x \<and> starts_with ps xs)"

text \<open>
  The alignment operation a segment stands for, read off the prefix of its key, which names
  the branch of the loop that pushed it: \<^verbatim>\<open>match-\<close> (case 1), \<^verbatim>\<open>orig-err-\<close> and
  \<^verbatim>\<open>corr-fix-\<close> (the two halves of a substitution), \<^verbatim>\<open>orig-del-\<close> (deletion),
  \<^verbatim>\<open>corr-add-\<close> (addition). A whitespace token pushed to one list only by the
  whitespace branch is a deletion (\<^verbatim>\<open>ws-o-\<close>) or an insertion (\<^verbatim>\<open>ws-c-\<close>) of a
  whitespace token, shown without a style.
\<close>

datatype alignment_op = Match | Substitute | Delete | Insert

definition op_of :: "node \<Rightarrow> alignment_op option" where
  "op_of n =
     (if starts_with ''match-'' (key n) then Some Match
      else if starts_with ''orig-err-'' (key n) \<or> starts_with ''corr-fix-'' (key n)
        then Some Substitute
      else if starts_with ''orig-del-'' (key n) \<or> starts_with ''ws-o-'' (key n)
        then Some Delete
      else if starts_with ''corr-add-'' (key n) \<or> starts_with ''ws-c-'' (key n)
        then Some Insert
      else None)"

text \<open>The number of tokens the loop has not consumed yet.\<close>

definition remaining ::
  "jsstring list \<Rightarrow> jsstring list \<Rightarrow> nat \<times> nat \<times> node list \<times> node list \<Rightarrow> nat" where
  "remaining wordsO wordsC st = (length wordsO - fst st) + (length wordsC - fst (snd st))"

text \<open>Loop invariant: the segments pushed so far carry exactly the tokens consumed so far.\<close>

definition children_inv ::
  "jsstring list \<Rightarrow> jsstring list \<Rightarrow> nat \<times> nat \<times> node list \<times> node list \<Rightarrow> bool" where
  "children_inv wordsO wordsC st =
     (case st of (i, j, os, cs) \<Rightarrow>
        map children os = map Some (take i wordsO) \<and> map children cs = map Some (take j wordsC))"

text \<open>Loop invariants for the diff of a string against itself and against the empty string.\<close>

definition identity_inv :: "nat \<times> nat \<times> node list \<times> node list \<Rightarrow> bool" where
  "identity_inv st =
     (case st of (i, j, os, cs) \<Rightarrow>
        i = j \<and> os = cs \<and> list_all (\<lambda>n. op_of n = Some Match \<and> className n = Some cls_match) os)"

definition only_insert_inv :: "nat \<times> nat \<times> node list \<times> node list \<Rightarrow> bool" where
  "only_insert_inv st =
     (case st of (i, j, os, cs) \<Rightarrow> os = [] \<and> list_all (\<lambda>n. op_of n = Some Insert) cs)"

definition only_delete_inv :: "nat \<times> nat \<times> node list \<times> node list \<Rightarrow> bool" where
  "only_delete_inv st =
     (case st of (i, j, os, cs) \<Rightarrow> cs = [] \<and> list_all (\<lambda>n. op_of n = Some Delete) os)"

text \<open>
  The keys the loop can give to a segment of the original list at index \<open>k\<close>, and to a
  segment of the corrected list at index \<open>l\<close>; the loop invariants built on them.
\<close>

definition orig_key :: "nat \<Rightarrow> string \<Rightarrow> bool" where
  "orig_key k s =
     ((\<exists>l. s = ''match-'' @ num_to_string k @ ''-'' @ num_to_string l)
      \<or> s = ''orig-err-'' @ num_to_string k \<or> s = ''orig-del-'' @ num_to_string k
      \<or> s = ''ws-o-'' @ num_to_string k)"

definition corr_key :: "nat \<Rightarrow> string \<Rightarrow> bool" where
  "corr_key l s =
     ((\<exists>k. s = ''match-'' @ num_to_string k @ ''-'' @ num_to_string l)
      \<or> s = ''corr-fix-'' @ num_to_string l \<or> s = ''corr-add-'' @ num_to_string l
      \<or> s = ''ws-c-'' @ num_to_string l)"

definition keys_inv :: "nat \<times> nat \<times> node list \<times> node list \<Rightarrow> bool" where
  "keys_inv st =
     (case st of (i, j, os, cs) \<Rightarrow>
        list_all (\<lambda>n. \<exists>k<i. orig_key k (key n)) os \<and> distinct (map key os)
        \<and> list_all (\<lambda>n. \<exists>l<j. corr_key l (key n)) cs \<and> distinct (map key cs))"

definition match_inv :: "nat \<times> nat \<times> node list \<times> node list \<Rightarrow> bool" where
  "match_inv st =
     (case st of (i, j, os, cs) \<Rightarrow>
        filter (\<lambda>n. op_of n = Some Match) os = filter (\<lambda>n. op_of n = Some Match) cs)"

text \<open>
  Loop invariants on whitespace: what holds of every pushed segment, and how the two halves
  of the substitutions pair up.
\<close>

definition ws_ok :: "node \<Rightarrow> bool" where
  "ws_ok n =
     ((op_of n \<noteq> Some Substitute \<or> trim (text_of n) \<noteq> [])
      \<and> (\<not> test_ws (text_of n) \<or> op_of n = Some Match
           \<or> className n = None \<and> (op_of n = Some Delete \<or> op_of n = Some Insert)))"

definition ws_inv :: "nat \<times> nat \<times> node list \<times> node list \<Rightarrow> bool" where
  "ws_inv st = (case st of (i, j, os, cs) \<Rightarrow> list_all ws_ok os \<and> list_all ws_ok cs)"

definition subst_pair :: "node \<Rightarrow> node \<Rightarrow> bool" where
  "subst_pair a b =
     (children a \<noteq> children b \<and> trim (text_of a) \<noteq> [] \<and> trim (text_of b) \<noteq> [])"

definition subst_inv :: "nat \<times> nat \<times> node list \<times> node list \<Rightarrow> bool" where
  "subst_inv st =
     (case st of (i, j, os, cs) \<Rightarrow>
        list_all2 subst_pair (filter (\<lambda>n. op_of n = Some Substitute) os)
                             (filter (\<lambda>n. op_of n = Some Substitute) cs))"

text \<open>
  Loop invariant of the positional scan: while the tokens at equal indices are of the same
  kind the two indices stay equal, and the segment at index \<open>k\<close> is a Match exactly when
  the two tokens at index \<open>k\<close> are identical.
\<close>

definition positional_inv ::
  "jsstring list \<Rightarrow> jsstring list \<Rightarrow> nat \<times> nat \<times> node list \<times> node list \<Rightarrow> bool" where
  "positional_inv wordsO wordsC st =
     (case st of (i, j, os, cs) \<Rightarrow>
        length os = i \<and> length cs = j
        \<and> (i = j \<or> min (length wordsO) (length wordsC) \<le> i
                    \<and> min (length wordsO) (length wordsC) \<le> j)
        \<and> (\<forall>k < min i (min (length wordsO) (length wordsC)).
              (op_of (os ! k) = Some Match) = (wordsO ! k = wordsC ! k)
              \<and> (op_of (cs ! k) = Some Match) = (wordsO ! k = wordsC ! k)))"

section \<open>Tokenizer and trimming lemmas\<close>

lemma concat_split_ws: "concat (split_ws s) = s"
proof (induction s rule: split_ws.induct)
  case (1 s)
  let ?rest = "dropWhile (\<lambda>ch. \<not> is_space ch) s"
  show ?case
  proof (cases "?rest = []")
    case True
    then show ?thesis
      by (subst split_ws.simps) (simp add: Let_def dropWhile_eq_Nil_conv)
  next
    case False
    have "concat (split_ws (dropWhile is_space ?rest)) = dropWhile is_space ?rest"
      using 1 False by simp
    then have "concat (split_ws s) =
        takeWhile (\<lambda>ch. \<not> is_space ch) s @ takeWhile is_space ?rest @ dropWhile is_space ?rest"
      using False by (subst split_ws.simps) (simp add: Let_def)
    then show ?thesis by simp
  qed
qed

lemma concat_filter_nonempty: "concat (filter (\<lambda>t. t \<noteq> []) xs) = concat xs"
  by (induction xs) auto

lemma concat_tokenize: "concat (tokenize s) = s"
  by (simp add: tokenize_def concat_filter_nonempty concat_split_ws)

lemma tokenize_nonempty: "[] \<notin> set (tokenize s)"
  by (simp add: tokenize_def)

lemma tokenize_Nil: "tokenize [] = []"
  by (simp add: tokenize_def split_ws.simps)

lemma trim_Nil_iff: "trim t = [] \<longleftrightarrow> list_all is_space t"
proof
  assume "list_all is_space t"
  then have "\<forall>x\<in>set t. is_space x" by (simp add: list_all_iff)
  then have d: "dropWhile is_space t = []"
    by (simp only: dropWhile_eq_Nil_conv)
  show "trim t = []" unfolding trim_def d by simp
next
  assume a: "trim t = []"
  show "list_all is_space t"
  proof (cases "dropWhile is_space t = []")
    case True
    then have "\<forall>x\<in>set t. is_space x" by (simp only: dropWhile_eq_Nil_conv)
    then show ?thesis by (simp add: list_all_iff)
  next
    case False
    then have "\<not> is_space (hd (dropWhile is_space t))" by (rule hd_dropWhile)
    moreover have "hd (dropWhile is_space t) \<in> set (rev (dropWhile is_space t))"
      using False by simp
    ultimately have "dropWhile is_space (rev (dropWhile is_space t)) \<noteq> []"
      by (auto simp: dropWhile_eq_Nil_conv)
    with a show ?thesis by (simp add: trim_def)
  qed
qed

lemma truthy_trim: "truthy (map_option trim x) \<longleftrightarrow> (\<exists>t. x = Some t \<and> trim t \<noteq> [])"
  by (cases x) auto

section \<open>One iteration, and the loop rule\<close>

lemma nonempty_trim_Nil: "t \<noteq> [] \<Longrightarrow> trim t = [] \<Longrightarrow> test_ws t"
  by (simp add: test_ws_def trim_Nil_iff)

lemma test_ws_trim: "test_ws t \<Longrightarrow> trim t = []"
  by (simp add: test_ws_def trim_Nil_iff)

lemma body_cases [consumes 3, case_names match subst del add ws_both ws_o ws_c]:
  assumes cond: "i < length wordsO \<or> j < length wordsC"
    and neO: "[] \<notin> set wordsO" and neC: "[] \<notin> set wordsC"
  obtains
    (match) "i < length wordsO" "j < length wordsC" "wordsO ! i = wordsC ! j"
      "body wordsO wordsC (i, j, os, cs) =
         (i + 1, j + 1,
          os @ [\<lparr>key = ''match-'' @ num_to_string i @ ''-'' @ num_to_string j,
                  className = Some cls_match, children = Some (wordsO ! i)\<rparr>],
          cs @ [\<lparr>key = ''match-'' @ num_to_string i @ ''-'' @ num_to_string j,
                  className = Some cls_match, children = Some (wordsO ! i)\<rparr>])"
  | (subst) "i < length wordsO" "j < length wordsC" "wordsO ! i \<noteq> wordsC ! j"
      "trim (wordsO ! i) \<noteq> []" "trim (wordsC ! j) \<noteq> []"
      "body wordsO wordsC (i, j, os, cs) =
         (i + 1, j + 1,
          os @ [\<lparr>key = ''orig-err-'' @ num_to_string i,
                  className = Some cls_orig, children = Some (wordsO ! i)\<rparr>],
          cs @ [\<lparr>key = ''corr-fix-'' @ num_to_string j,
                  className = Some cls_corr, children = Some (wordsC ! j)\<rparr>])"
  | (del) "i < length wordsO" "trim (wordsO ! i) \<noteq> []"
      "j < length wordsC \<longrightarrow> test_ws (wordsC ! j)"
      "body wordsO wordsC (i, j, os, cs) =
         (i + 1, j,
          os @ [\<lparr>key = ''orig-del-'' @ num_to_string i,
                  className = Some cls_orig, children = Some (wordsO ! i)\<rparr>],
          cs)"
  | (add) "j < length wordsC" "trim (wordsC ! j) \<noteq> []"
      "i < length wordsO \<longrightarrow> test_ws (wordsO ! i)"
      "body wordsO wordsC (i, j, os, cs) =
         (i, j + 1, os,
          cs @ [\<lparr>key = ''corr-add-'' @ num_to_string j,
                  className = Some cls_corr, children = Some (wordsC ! j)\<rparr>])"
  | (ws_both) "i < length wordsO" "j < length wordsC" "wordsO ! i \<noteq> wordsC ! j"
      "test_ws (wordsO ! i)" "test_ws (wordsC ! j)"
      "body wordsO wordsC (i, j, os, cs) =
         (i + 1, j + 1,
          os @ [\<lparr>key = ''ws-o-'' @ num_to_string i,
                  className = None, children = Some (wordsO ! i)\<rparr>],
          cs @ [\<lparr>key = ''ws-c-'' @ num_to_string j,
                  className = None, children = Some (wordsC ! j)\<rparr>])"
  | (ws_o) "i < length wordsO" "\<not> j < length wordsC" "test_ws (wordsO ! i)"
      "body wordsO wordsC (i, j, os, cs) =
         (i + 1, j,
          os @ [\<lparr>key = ''ws-o-'' @ num_to_string i,
                  className = None, children = Some (wordsO ! i)\<rparr>],
          cs)"
  | (ws_c) "\<not> i < length wordsO" "j < length wordsC" "test_ws (wordsC ! j)"
      "body wordsO wordsC (i, j, os, cs) =
         (i, j + 1, os,
          cs @ [\<lparr>key = ''ws-c-'' @ num_to_string j,
                  className = None, children = Some (wordsC ! j)\<rparr>])"
proof -
  have neO': "i < length wordsO \<Longrightarrow> wordsO ! i \<noteq> []"
    using neO nth_mem[of i wordsO] by metis
  have neC': "j < length wordsC \<Longrightarrow> wordsC ! j \<noteq> []"
    using neC nth_mem[of j wordsC] by metis
  consider (both) "i < length wordsO" "j < length wordsC"
    | (onlyO) "i < length wordsO" "\<not> j < length wordsC"
    | (onlyC) "\<not> i < length wordsO" "j < length wordsC"
    using cond by blast
  then show thesis
  proof cases
    case both
    show thesis
    proof (cases "wordsO ! i = wordsC ! j")
      case True
      show thesis
        by (rule match[OF both True]) (simp add: body_def at_def both True Let_def)
    next
      case ne: False
      show thesis
      proof (cases "trim (wordsO ! i) = []"; cases "trim (wordsC ! j) = []")
        assume a: "trim (wordsO ! i) = []" "trim (wordsC ! j) = []"
        have t: "test_ws (wordsO ! i)" "test_ws (wordsC ! j)"
          using a neO'[OF both(1)] neC'[OF both(2)] by (simp_all add: nonempty_trim_Nil)
        show thesis
          by (rule ws_both[OF both ne t])
             (simp add: body_def at_def both ne a t neO'[OF both(1)] neC'[OF both(2)])
      next
        assume a: "trim (wordsO ! i) = []" "trim (wordsC ! j) \<noteq> []"
        have t: "test_ws (wordsO ! i)"
          using a neO'[OF both(1)] by (simp add: nonempty_trim_Nil)
        show thesis
          by (rule add[OF both(2) a(2)]) (simp_all add: body_def at_def both ne a t)
      next
        assume a: "trim (wordsO ! i) \<noteq> []" "trim (wordsC ! j) = []"
        have t: "test_ws (wordsC ! j)"
          using a neC'[OF both(2)] by (simp add: nonempty_trim_Nil)
        show thesis
          by (rule del[OF both(1) a(1)]) (simp_all add: body_def at_def both ne a t)
      next
        assume a: "trim (wordsO ! i) \<noteq> []" "trim (wordsC ! j) \<noteq> []"
        show thesis
          by (rule subst[OF both ne a]) (simp add: body_def at_def both ne a)
      qed
    qed
  next
    case onlyO
    show thesis
    proof (cases "trim (wordsO ! i) = []")
      case True
      have t: "test_ws (wordsO ! i)"
        using True neO'[OF onlyO(1)] by (simp add: nonempty_trim_Nil)
      show thesis
        by (rule ws_o[OF onlyO t]) (simp add: body_def at_def onlyO True t neO'[OF onlyO(1)])
    next
      case False
      show thesis
        by (rule del[OF onlyO(1) False]) (simp_all add: body_def at_def onlyO False)
    qed
  next
    case onlyC
    show thesis
    proof (cases "trim (wordsC ! j) = []")
      case True
      have t: "test_ws (wordsC ! j)"
        using True neC'[OF onlyC(2)] by (simp add: nonempty_trim_Nil)
      show thesis
        by (rule ws_c[OF onlyC t]) (simp add: body_def at_def onlyC True t neC'[OF onlyC(2)])
    next
      case False
      show thesis
        by (rule add[OF onlyC(2) False]) (simp_all add: body_def at_def onlyC False)
    qed
  qed
qed

lemma body_progress:
  assumes "fst st < length wordsO \<or> fst (snd st) < length wordsC"
    and "[] \<notin> set wordsO" and "[] \<notin> set wordsC"
  shows "remaining wordsO wordsC (body wordsO wordsC st) < remaining wordsO wordsC st"
proof -
  obtain i j os cs where st: "st = (i, j, os, cs)" by (cases st) auto
  have c: "i < length wordsO \<or> j < length wordsC" using assms(1) st by simp
  from c assms(2,3) show ?thesis unfolding st
    by (cases rule: body_cases[where os = os and cs = cs]) (auto simp: remaining_def)
qed

lemma diff_loop_rule:
  assumes neO: "[] \<notin> set wordsO" and neC: "[] \<notin> set wordsC"
    and init: "Inv st"
    and step: "\<And>i j os cs. Inv (i, j, os, cs) \<Longrightarrow> i < length wordsO \<or> j < length wordsC
                 \<Longrightarrow> Inv (body wordsO wordsC (i, j, os, cs))"
  shows "\<exists>i j os cs. diff_loop wordsO wordsC st = Some (os, cs) \<and> Inv (i, j, os, cs)
            \<and> length wordsO \<le> i \<and> length wordsC \<le> j"
  using init
proof (induction "remaining wordsO wordsC st" arbitrary: st rule: less_induct)
  case less
  obtain i j os cs where st: "st = (i, j, os, cs)" by (cases st) auto
  show ?case
  proof (cases "i < length wordsO \<or> j < length wordsC")
    case True
    have "remaining wordsO wordsC (body wordsO wordsC st) < remaining wordsO wordsC st"
      using True neO neC by (intro body_progress) (simp_all add: st)
    moreover have "Inv (body wordsO wordsC st)"
      using step[of i j os cs] less.prems True by (simp add: st)
    ultimately have "\<exists>i j os cs. diff_loop wordsO wordsC (body wordsO wordsC st) = Some (os, cs)
        \<and> Inv (i, j, os, cs) \<and> length wordsO \<le> i \<and> length wordsC \<le> j"
      by (rule less.hyps)
    moreover have "diff_loop wordsO wordsC st = diff_loop wordsO wordsC (body wordsO wordsC st)"
      using True by (subst diff_loop.simps) (simp add: st)
    ultimately show ?thesis by simp
  next
    case False
    then have "diff_loop wordsO wordsC st = Some (os, cs)"
      by (subst diff_loop.simps) (simp add: st)
    with False less.prems show ?thesis
      by (intro exI[of _ i] exI[of _ j] exI[of _ os] exI[of _ cs]) (simp add: st)
  qed
qed

lemma getDiffSegments_rule:
  assumes init: "Inv (0, 0, [], [])"
    and step: "\<And>i j os cs. Inv (i, j, os, cs)
                 \<Longrightarrow> i < length (tokenize original) \<or> j < length (tokenize corrected)
                 \<Longrightarrow> Inv (body (tokenize original) (tokenize corrected) (i, j, os, cs))"
  shows "\<exists>i j os cs. getDiffSegments original corrected = Some (os, cs) \<and> Inv (i, j, os, cs)
            \<and> length (tokenize original) \<le> i \<and> length (tokenize corrected) \<le> j"
  unfolding getDiffSegments_def Let_def
  by (rule diff_loop_rule[OF tokenize_nonempty tokenize_nonempty init step])

section \<open>Lossless tokenization\<close>

text \<open>
  Claim C3. For every string \<open>s\<close>, concatenating the tokens of \<open>s\<close> in order gives \<open>s\<close>
  back, so every code unit of \<open>s\<close> lies in exactly one token; no token is empty; and the
  empty string has no tokens.
\<close>

theorem tokenize_lossless:
  "concat (tokenize s) = s \<and> [] \<notin> set (tokenize s) \<and> tokenize [] = []"
  by (simp add: concat_tokenize tokenize_nonempty tokenize_Nil)

section \<open>Termination\<close>

lemma body_advances:
  assumes "i < length wordsO \<or> j < length wordsC"
    and "[] \<notin> set wordsO" and "[] \<notin> set wordsC"
  shows "case body wordsO wordsC (i, j, os, cs) of
           (i', j', os', cs') \<Rightarrow> i \<le> i' \<and> j \<le> j' \<and> i + j < i' + j'"
  using assms
  by (cases rule: body_cases[where os = os and cs = cs]) simp_all

text \<open>
  Claim C10. The loop of \<^verbatim>\<open>getDiffSegments\<close> terminates on every pair of strings and
  the diff returns a result: the tokens are not empty, so in every iteration that the loop
  condition admits neither index decreases and at least one of them grows, whatever the
  branch.
\<close>

theorem getDiffSegments_total:
  "(\<exists>r. getDiffSegments original corrected = Some r)
   \<and> [] \<notin> set (tokenize original) \<and> [] \<notin> set (tokenize corrected)
   \<and> (i < length (tokenize original) \<or> j < length (tokenize corrected) \<longrightarrow>
        (case body (tokenize original) (tokenize corrected) (i, j, os, cs) of
           (i', j', os', cs') \<Rightarrow> i \<le> i' \<and> j \<le> j' \<and> i + j < i' + j'))"
proof -
  have "\<exists>i j os cs. getDiffSegments original corrected = Some (os, cs) \<and> True
            \<and> length (tokenize original) \<le> i \<and> length (tokenize corrected) \<le> j"
    by (rule getDiffSegments_rule[where Inv = "\<lambda>_. True"]) simp_all
  then have "\<exists>r. getDiffSegments original corrected = Some r" by blast
  moreover have "i < length (tokenize original) \<or> j < length (tokenize corrected) \<longrightarrow>
        (case body (tokenize original) (tokenize corrected) (i, j, os, cs) of
           (i', j', os', cs') \<Rightarrow> i \<le> i' \<and> j \<le> j' \<and> i + j < i' + j')"
    by (rule impI, rule body_advances) (simp_all add: tokenize_nonempty)
  ultimately show ?thesis by (simp add: tokenize_nonempty)
qed

text \<open>
  The whitespace branch on the double space of \<^verbatim>\<open>"a  b"\<close> against the single space of
  \<^verbatim>\<open>"a b"\<close>: both indices advance.
\<close>

theorem getDiffSegments_total_witness:
  "(1::nat) < length (tokenize (js_of ''a  b''))
   \<and> body (tokenize (js_of ''a  b'')) (tokenize (js_of ''a b'')) (1, 1, [], []) =
       (2, 2, [\<lparr>key = ''ws-o-1'', className = None, children = Some (js_of ''  '')\<rparr>],
              [\<lparr>key = ''ws-c-1'', className = None, children = Some (js_of '' '')\<rparr>])
   \<and> (case body (tokenize (js_of ''a  b'')) (tokenize (js_of ''a b'')) (1, 1, [], []) of
         (i', j', os', cs') \<Rightarrow> (1::nat) \<le> i' \<and> (1::nat) \<le> j' \<and> (1::nat) + 1 < i' + j')"
proof -
  have len: "(1::nat) < length (tokenize (js_of ''a  b''))" by code_simp
  have b: "body (tokenize (js_of ''a  b'')) (tokenize (js_of ''a b'')) (1, 1, [], []) =
       (2, 2, [\<lparr>key = ''ws-o-1'', className = None, children = Some (js_of ''  '')\<rparr>],
              [\<lparr>key = ''ws-c-1'', className = None, children = Some (js_of '' '')\<rparr>])"
    by code_simp
  have c: "case body (tokenize (js_of ''a  b'')) (tokenize (js_of ''a b'')) (1, 1, [], []) of
         (i', j', os', cs') \<Rightarrow> (1::nat) \<le> i' \<and> (1::nat) \<le> j' \<and> (1::nat) + 1 < i' + j'"
    by (rule getDiffSegments_total[of "js_of ''a  b''" "js_of ''a b''" 1 1 "[]" "[]",
          THEN conjunct2, THEN conjunct2, THEN conjunct2, THEN mp, OF disjI1, OF len])
  show ?thesis by (intro conjI len b c)
qed

section \<open>Reconstruction\<close>

lemma children_inv_step:
  assumes "children_inv wordsO wordsC (i, j, os, cs)"
    and "i < length wordsO \<or> j < length wordsC"
    and "[] \<notin> set wordsO" and "[] \<notin> set wordsC"
  shows "children_inv wordsO wordsC (body wordsO wordsC (i, j, os, cs))"
  using assms(2-4)
proof (cases rule: body_cases[where os = os and cs = cs])
  case match
  with assms(1) show ?thesis by (simp add: children_inv_def take_Suc_conv_app_nth)
next
  case subst
  with assms(1) show ?thesis by (simp add: children_inv_def take_Suc_conv_app_nth)
next
  case del
  with assms(1) show ?thesis by (simp add: children_inv_def take_Suc_conv_app_nth)
next
  case add
  with assms(1) show ?thesis by (simp add: children_inv_def take_Suc_conv_app_nth)
next
  case ws_both
  with assms(1) show ?thesis by (simp add: children_inv_def take_Suc_conv_app_nth)
next
  case ws_o
  with assms(1) show ?thesis by (simp add: children_inv_def take_Suc_conv_app_nth)
next
  case ws_c
  with assms(1) show ?thesis by (simp add: children_inv_def take_Suc_conv_app_nth)
qed

lemma concat_text_of:
  "map children ns = map Some ts \<Longrightarrow> concat (map text_of ns) = concat ts"
proof (induction ns arbitrary: ts)
  case Nil
  then show ?case by simp
next
  case (Cons n ns)
  then obtain t ts' where "ts = t # ts'" "children n = Some t" "map children ns = map Some ts'"
    by (cases ts) auto
  with Cons.IH[of ts'] show ?case by (simp add: text_of_def)
qed

text \<open>
  Claim C2. For every pair of strings the diff returns two lists of segments; the children
  of the original list are, in order, the tokens of the original string and their
  concatenation is that string, and the same holds for the corrected list and the corrected
  string.
\<close>

theorem getDiffSegments_reconstruction:
  "\<exists>os cs. getDiffSegments original corrected = Some (os, cs)
     \<and> map children os = map Some (tokenize original)
     \<and> map children cs = map Some (tokenize corrected)
     \<and> concat (map text_of os) = original
     \<and> concat (map text_of cs) = corrected"
proof -
  let ?O = "tokenize original" and ?C = "tokenize corrected"
  have "\<exists>i j os cs. getDiffSegments original corrected = Some (os, cs)
          \<and> children_inv ?O ?C (i, j, os, cs) \<and> length ?O \<le> i \<and> length ?C \<le> j"
  proof (rule getDiffSegments_rule)
    show "children_inv ?O ?C (0, 0, [], [])" by (simp add: children_inv_def)
  next
    fix i j os cs
    assume "children_inv ?O ?C (i, j, os, cs)" "i < length ?O \<or> j < length ?C"
    then show "children_inv ?O ?C (body ?O ?C (i, j, os, cs))"
      by (rule children_inv_step) (rule tokenize_nonempty)+
  qed
  then obtain i j os cs where r: "getDiffSegments original corrected = Some (os, cs)"
    and inv: "children_inv ?O ?C (i, j, os, cs)" and le: "length ?O \<le> i" "length ?C \<le> j"
    by blast
  from inv le have m: "map children os = map Some ?O" "map children cs = map Some ?C"
    by (simp_all add: children_inv_def)
  have "concat (map text_of os) = original" "concat (map text_of cs) = corrected"
    using m[THEN concat_text_of] by (simp_all add: concat_tokenize)
  with r m show ?thesis by simp
qed

section \<open>Classification of the pushed segments\<close>

lemma op_of_append:
  "op_of \<lparr>key = ''match-'' @ x, className = a, children = t\<rparr> = Some Match"
  "op_of \<lparr>key = ''orig-err-'' @ x, className = a, children = t\<rparr> = Some Substitute"
  "op_of \<lparr>key = ''corr-fix-'' @ x, className = a, children = t\<rparr> = Some Substitute"
  "op_of \<lparr>key = ''orig-del-'' @ x, className = a, children = t\<rparr> = Some Delete"
  "op_of \<lparr>key = ''ws-o-'' @ x, className = a, children = t\<rparr> = Some Delete"
  "op_of \<lparr>key = ''corr-add-'' @ x, className = a, children = t\<rparr> = Some Insert"
  "op_of \<lparr>key = ''ws-c-'' @ x, className = a, children = t\<rparr> = Some Insert"
  by (simp_all add: op_of_def)

lemmas op_of_simps = op_of_append[simplified]

section \<open>Identity and emptiness\<close>

lemma identity_inv_step:
  assumes "identity_inv (i, j, os, cs)"
    and "i < length ws \<or> j < length ws"
    and "[] \<notin> set ws"
  shows "identity_inv (body ws ws (i, j, os, cs))"
  using assms(2,3,3)
proof (cases rule: body_cases[where os = os and cs = cs])
  case match
  with assms(1) show ?thesis by (auto simp: identity_inv_def op_of_simps)
next
  case subst
  with assms(1) show ?thesis by (auto simp: identity_inv_def)
next
  case del
  with assms(1) show ?thesis by (auto simp: identity_inv_def dest: test_ws_trim)
next
  case add
  with assms(1) show ?thesis by (auto simp: identity_inv_def dest: test_ws_trim)
next
  case ws_both
  with assms(1) show ?thesis by (auto simp: identity_inv_def)
next
  case ws_o
  with assms(1) show ?thesis by (auto simp: identity_inv_def)
next
  case ws_c
  with assms(1) show ?thesis by (auto simp: identity_inv_def)
qed

lemma only_insert_inv_step:
  assumes "only_insert_inv (i, j, os, cs)"
    and "i < length ([] :: jsstring list) \<or> j < length wordsC"
    and "[] \<notin> set wordsC"
  shows "only_insert_inv (body [] wordsC (i, j, os, cs))"
proof -
  have "[] \<notin> set ([] :: jsstring list)" by simp
  with assms(2) show ?thesis using assms(3)
    by (cases rule: body_cases[where os = os and cs = cs])
       (use assms(1) in \<open>simp_all add: only_insert_inv_def op_of_simps\<close>)
qed

lemma only_delete_inv_step:
  assumes "only_delete_inv (i, j, os, cs)"
    and "i < length wordsO \<or> j < length ([] :: jsstring list)"
    and "[] \<notin> set wordsO"
  shows "only_delete_inv (body wordsO [] (i, j, os, cs))"
proof -
  have "[] \<notin> set ([] :: jsstring list)" by simp
  with assms(2,3) show ?thesis
    by (cases rule: body_cases[where os = os and cs = cs])
       (use assms(1) in \<open>simp_all add: only_delete_inv_def op_of_simps\<close>)
qed

lemma getDiffSegments_rule2:
  assumes init: "Inv (0, 0, [], [])"
    and step: "\<And>i j os cs. Inv (i, j, os, cs)
                 \<Longrightarrow> i < length (tokenize original) \<or> j < length (tokenize corrected)
                 \<Longrightarrow> Inv (body (tokenize original) (tokenize corrected) (i, j, os, cs))"
  shows "\<exists>i j os cs. getDiffSegments original corrected = Some (os, cs) \<and> Inv (i, j, os, cs)
            \<and> map children os = map Some (tokenize original)
            \<and> map children cs = map Some (tokenize corrected)"
proof -
  let ?O = "tokenize original" and ?C = "tokenize corrected"
  let ?I = "\<lambda>st. Inv st \<and> children_inv ?O ?C st"
  have "\<exists>i j os cs. getDiffSegments original corrected = Some (os, cs) \<and> ?I (i, j, os, cs)
            \<and> length ?O \<le> i \<and> length ?C \<le> j"
  proof (rule getDiffSegments_rule)
    show "?I (0, 0, [], [])" using init by (simp add: children_inv_def)
  next
    fix i j os cs
    assume a: "?I (i, j, os, cs)" "i < length ?O \<or> j < length ?C"
    have "children_inv ?O ?C (body ?O ?C (i, j, os, cs))"
      using a by (intro children_inv_step tokenize_nonempty) simp_all
    with step[of i j os cs] a show "?I (body ?O ?C (i, j, os, cs))" by simp
  qed
  then obtain i j os cs where "getDiffSegments original corrected = Some (os, cs)"
    "Inv (i, j, os, cs)" "children_inv ?O ?C (i, j, os, cs)" "length ?O \<le> i" "length ?C \<le> j"
    by blast
  then show ?thesis
    by (intro exI[of _ i] exI[of _ j] exI[of _ os] exI[of _ cs]) (simp add: children_inv_def)
qed

text \<open>
  Claim C6. For every string \<open>s\<close>, the diff of \<open>s\<close> against itself returns the same list
  for both sides; it carries every token of \<open>s\<close>, and every segment of it is a Match
  with the class of unchanged text: no Substitute, Insert or Delete occurs.
\<close>

theorem getDiffSegments_identity:
  "\<exists>os. getDiffSegments s s = Some (os, os)
     \<and> map children os = map Some (tokenize s)
     \<and> list_all (\<lambda>n. op_of n = Some Match \<and> className n = Some cls_match) os"
proof -
  have "\<exists>i j os cs. getDiffSegments s s = Some (os, cs) \<and> identity_inv (i, j, os, cs)
          \<and> map children os = map Some (tokenize s) \<and> map children cs = map Some (tokenize s)"
  proof (rule getDiffSegments_rule2)
    show "identity_inv (0, 0, [], [])" by (auto simp: identity_inv_def)
  next
    fix i j os cs
    assume "identity_inv (i, j, os, cs)" "i < length (tokenize s) \<or> j < length (tokenize s)"
    then show "identity_inv (body (tokenize s) (tokenize s) (i, j, os, cs))"
      by (rule identity_inv_step) (rule tokenize_nonempty)
  qed
  then show ?thesis by (auto simp: identity_inv_def)
qed

text \<open>
  Claim C7. The diff of the empty string against \<open>corrected\<close> has an empty original list,
  and its corrected list carries every token of \<open>corrected\<close> as an Insert; the diff of
  \<open>original\<close> against the empty string has an empty corrected list, and its original list
  carries every token of \<open>original\<close> as a Delete.
\<close>

theorem getDiffSegments_empty:
  "(\<exists>cs. getDiffSegments [] corrected = Some ([], cs)
      \<and> map children cs = map Some (tokenize corrected)
      \<and> list_all (\<lambda>n. op_of n = Some Insert) cs)
   \<and> (\<exists>os. getDiffSegments original [] = Some (os, [])
      \<and> map children os = map Some (tokenize original)
      \<and> list_all (\<lambda>n. op_of n = Some Delete) os)"
proof
  have "\<exists>i j os cs. getDiffSegments [] corrected = Some (os, cs) \<and> only_insert_inv (i, j, os, cs)
          \<and> map children os = map Some (tokenize []) \<and> map children cs = map Some (tokenize corrected)"
  proof (rule getDiffSegments_rule2)
    show "only_insert_inv (0, 0, [], [])" by (simp add: only_insert_inv_def)
  next
    fix i j os cs
    assume "only_insert_inv (i, j, os, cs)"
      "i < length (tokenize []) \<or> j < length (tokenize corrected)"
    then show "only_insert_inv (body (tokenize []) (tokenize corrected) (i, j, os, cs))"
      unfolding tokenize_Nil by (rule only_insert_inv_step) (rule tokenize_nonempty)
  qed
  then show "\<exists>cs. getDiffSegments [] corrected = Some ([], cs)
      \<and> map children cs = map Some (tokenize corrected)
      \<and> list_all (\<lambda>n. op_of n = Some Insert) cs"
    by (auto simp: only_insert_inv_def)
next
  have "\<exists>i j os cs. getDiffSegments original [] = Some (os, cs) \<and> only_delete_inv (i, j, os, cs)
          \<and> map children os = map Some (tokenize original) \<and> map children cs = map Some (tokenize [])"
  proof (rule getDiffSegments_rule2)
    show "only_delete_inv (0, 0, [], [])" by (simp add: only_delete_inv_def)
  next
    fix i j os cs
    assume "only_delete_inv (i, j, os, cs)"
      "i < length (tokenize original) \<or> j < length (tokenize [])"
    then show "only_delete_inv (body (tokenize original) (tokenize []) (i, j, os, cs))"
      unfolding tokenize_Nil by (rule only_delete_inv_step) (rule tokenize_nonempty)
  qed
  then show "\<exists>os. getDiffSegments original [] = Some (os, [])
      \<and> map children os = map Some (tokenize original)
      \<and> list_all (\<lambda>n. op_of n = Some Delete) os"
    by (auto simp: only_delete_inv_def)
qed

section \<open>Keys\<close>

lemma digit_inj: "d < 10 \<Longrightarrow> e < 10 \<Longrightarrow> digit d = digit e \<Longrightarrow> d = e"
proof -
  assume a: "d < 10" "e < 10" "digit d = digit e"
  have "distinct ''0123456789''" by simp
  moreover have "d < length ''0123456789''" "e < length ''0123456789''" using a by simp_all
  ultimately show "d = e" using a(3) unfolding digit_def by (simp only: nth_eq_iff_index_eq)
qed

lemma digit_not_dash: "d < 10 \<Longrightarrow> digit d \<noteq> CHR ''-''"
proof -
  assume "d < 10"
  then have "digit d \<in> set ''0123456789''" unfolding digit_def by (intro nth_mem) simp
  then show ?thesis by auto
qed

lemma num_to_string_not_Nil: "num_to_string n \<noteq> []"
  by (subst num_to_string.simps) simp

lemma dash_notin: "CHR ''-'' \<notin> set (num_to_string n)"
proof (induction n rule: num_to_string.induct)
  case (1 n)
  show ?case
  proof (cases "n < 10")
    case True
    then show ?thesis using digit_not_dash[of n] by (subst num_to_string.simps) auto
  next
    case False
    then show ?thesis using 1 digit_not_dash[of "n mod 10"]
      by (subst num_to_string.simps) auto
  qed
qed

lemma num_to_string_inj: "num_to_string n = num_to_string m \<Longrightarrow> n = m"
proof (induction n arbitrary: m rule: num_to_string.induct)
  case (1 n)
  show ?case
  proof (cases "n < 10"; cases "m < 10")
    assume a: "n < 10" "m < 10"
    then have "[digit n] = [digit m]"
      using "1.prems" by (simp add: num_to_string.simps[of n] num_to_string.simps[of m])
    then show ?thesis using a digit_inj by simp
  next
    assume a: "n < 10" "\<not> m < 10"
    then have "[digit n] = num_to_string (m div 10) @ [digit (m mod 10)]"
      using "1.prems" by (simp add: num_to_string.simps[of n] num_to_string.simps[of m])
    then show ?thesis using num_to_string_not_Nil[of "m div 10"] by simp
  next
    assume a: "\<not> n < 10" "m < 10"
    then have "num_to_string (n div 10) @ [digit (n mod 10)] = [digit m]"
      using "1.prems" by (simp add: num_to_string.simps[of n] num_to_string.simps[of m])
    then show ?thesis using num_to_string_not_Nil[of "n div 10"] by simp
  next
    assume a: "\<not> n < 10" "\<not> m < 10"
    then have "num_to_string (n div 10) @ [digit (n mod 10)]
        = num_to_string (m div 10) @ [digit (m mod 10)]"
      using "1.prems" by (simp add: num_to_string.simps[of n] num_to_string.simps[of m])
    then have e: "num_to_string (n div 10) = num_to_string (m div 10)"
      "digit (n mod 10) = digit (m mod 10)" by simp_all
    have "n div 10 = m div 10" using "1.IH"[OF a(1) e(1)] .
    moreover have "n mod 10 = m mod 10" using e(2) by (intro digit_inj) simp_all
    ultimately show ?thesis by (metis div_mult_mod_eq)
  qed
qed

lemma orig_key_inj: "orig_key k s \<Longrightarrow> orig_key k' s \<Longrightarrow> k = k'"
  unfolding orig_key_def
  by (auto simp: append_Cons_eq_iff dash_notin dest: num_to_string_inj)

lemma corr_key_inj: "corr_key l s \<Longrightarrow> corr_key l' s \<Longrightarrow> l = l'"
  unfolding corr_key_def
  by (auto simp: append_Cons_eq_iff dash_notin dest: num_to_string_inj)

lemma orig_key_append:
  "orig_key k (''match-'' @ num_to_string k @ ''-'' @ num_to_string l)"
  "orig_key k (''orig-err-'' @ num_to_string k)"
  "orig_key k (''orig-del-'' @ num_to_string k)"
  "orig_key k (''ws-o-'' @ num_to_string k)"
  unfolding orig_key_def by blast+

lemma corr_key_append:
  "corr_key l (''match-'' @ num_to_string k @ ''-'' @ num_to_string l)"
  "corr_key l (''corr-fix-'' @ num_to_string l)"
  "corr_key l (''corr-add-'' @ num_to_string l)"
  "corr_key l (''ws-c-'' @ num_to_string l)"
  unfolding corr_key_def by blast+

lemmas key_intros = orig_key_append[simplified] corr_key_append[simplified]

lemma fresh_orig_key:
  "list_all (\<lambda>n. \<exists>k<i. orig_key k (key n)) os \<Longrightarrow> orig_key i s \<Longrightarrow> s \<notin> key ` set os"
  by (auto simp: list_all_iff dest: orig_key_inj)

lemma fresh_corr_key:
  "list_all (\<lambda>n. \<exists>l<j. corr_key l (key n)) cs \<Longrightarrow> corr_key j s \<Longrightarrow> s \<notin> key ` set cs"
  by (auto simp: list_all_iff dest: corr_key_inj)

lemma orig_key_mono:
  "list_all (\<lambda>n. \<exists>k<i. orig_key k (key n)) os
     \<Longrightarrow> list_all (\<lambda>n. \<exists>k<Suc i. orig_key k (key n)) os"
  by (auto simp: list_all_iff less_Suc_eq)

lemma corr_key_mono:
  "list_all (\<lambda>n. \<exists>l<j. corr_key l (key n)) cs
     \<Longrightarrow> list_all (\<lambda>n. \<exists>l<Suc j. corr_key l (key n)) cs"
  by (auto simp: list_all_iff less_Suc_eq)

lemma keys_inv_step:
  assumes inv: "keys_inv (i, j, os, cs)"
    and "i < length wordsO \<or> j < length wordsC"
    and "[] \<notin> set wordsO" and "[] \<notin> set wordsC"
  shows "keys_inv (body wordsO wordsC (i, j, os, cs))"
proof -
  from inv have o: "list_all (\<lambda>n. \<exists>k<i. orig_key k (key n)) os" "distinct (map key os)"
    and c: "list_all (\<lambda>n. \<exists>l<j. corr_key l (key n)) cs" "distinct (map key cs)"
    by (simp_all add: keys_inv_def)
  have fo: "s \<notin> key ` set os" if "orig_key i s" for s
    using fresh_orig_key[OF o(1) that] .
  have fc: "s \<notin> key ` set cs" if "corr_key j s" for s
    using fresh_corr_key[OF c(1) that] .
  have eo: "\<exists>k<Suc i. orig_key k s" if "orig_key i s" for s
    using that by blast
  have ec: "\<exists>l<Suc j. corr_key l s" if "corr_key j s" for s
    using that by blast
  note facts = o c orig_key_mono[OF o(1)] corr_key_mono[OF c(1)] fo fc eo ec key_intros
  from assms(2-4) show ?thesis
  proof (cases rule: body_cases[where os = os and cs = cs])
    case match
    then show ?thesis by (simp add: keys_inv_def facts)
  next
    case subst
    then show ?thesis by (simp add: keys_inv_def facts)
  next
    case del
    then show ?thesis by (simp add: keys_inv_def facts)
  next
    case add
    then show ?thesis by (simp add: keys_inv_def facts)
  next
    case ws_both
    then show ?thesis by (simp add: keys_inv_def facts)
  next
    case ws_o
    then show ?thesis by (simp add: keys_inv_def facts)
  next
    case ws_c
    then show ?thesis by (simp add: keys_inv_def facts)
  qed
qed

lemma match_inv_step:
  assumes inv: "match_inv (i, j, os, cs)"
    and "i < length wordsO \<or> j < length wordsC"
    and "[] \<notin> set wordsO" and "[] \<notin> set wordsC"
  shows "match_inv (body wordsO wordsC (i, j, os, cs))"
  using assms(2-4)
  by (cases rule: body_cases[where os = os and cs = cs])
     (use inv in \<open>simp_all add: match_inv_def op_of_simps\<close>)


text \<open>
  Claim C8. The keys are a function of the two strings. For every pair of strings the diff
  returns two lists that carry every token of the original and of the corrected string, one
  segment each, and within one call the keys do not collide: no two segments of the original
  list share a key, no two segments of the corrected list share a key, and the Match
  segments of the two lists are the same segments in the same order, so each Match
  contributes one segment to both lists with one key.
\<close>

theorem getDiffSegments_keys:
  "\<exists>os cs. getDiffSegments original corrected = Some (os, cs)
     \<and> map children os = map Some (tokenize original)
     \<and> map children cs = map Some (tokenize corrected)
     \<and> distinct (map key os) \<and> distinct (map key cs)
     \<and> filter (\<lambda>n. op_of n = Some Match) os = filter (\<lambda>n. op_of n = Some Match) cs"
proof -
  let ?O = "tokenize original" and ?C = "tokenize corrected"
  let ?I = "\<lambda>st. keys_inv st \<and> match_inv st"
  have "\<exists>i j os cs. getDiffSegments original corrected = Some (os, cs) \<and> ?I (i, j, os, cs)
          \<and> map children os = map Some ?O \<and> map children cs = map Some ?C"
  proof (rule getDiffSegments_rule2)
    show "?I (0, 0, [], [])" by (simp add: keys_inv_def match_inv_def)
  next
    fix i j os cs
    assume a: "?I (i, j, os, cs)" "i < length ?O \<or> j < length ?C"
    have "keys_inv (body ?O ?C (i, j, os, cs))"
      using a by (intro keys_inv_step tokenize_nonempty) simp_all
    moreover have "match_inv (body ?O ?C (i, j, os, cs))"
      using a by (intro match_inv_step tokenize_nonempty) simp_all
    ultimately show "?I (body ?O ?C (i, j, os, cs))" by simp
  qed
  then show ?thesis by (auto simp: keys_inv_def match_inv_def)
qed

section \<open>Whitespace and substitutions\<close>

lemma ws_inv_step:
  assumes inv: "ws_inv (i, j, os, cs)"
    and "i < length wordsO \<or> j < length wordsC"
    and "[] \<notin> set wordsO" and "[] \<notin> set wordsC"
  shows "ws_inv (body wordsO wordsC (i, j, os, cs))"
  using assms(2-4)
proof (cases rule: body_cases[where os = os and cs = cs])
  case match
  then show ?thesis using inv by (simp add: ws_inv_def ws_ok_def op_of_simps)
next
  case subst
  then show ?thesis using inv
    by (auto simp: ws_inv_def ws_ok_def op_of_simps text_of_def dest: test_ws_trim)
next
  case del
  then show ?thesis using inv
    by (auto simp: ws_inv_def ws_ok_def op_of_simps text_of_def dest: test_ws_trim)
next
  case add
  then show ?thesis using inv
    by (auto simp: ws_inv_def ws_ok_def op_of_simps text_of_def dest: test_ws_trim)
next
  case ws_both
  then show ?thesis using inv by (simp add: ws_inv_def ws_ok_def op_of_simps)
next
  case ws_o
  then show ?thesis using inv by (simp add: ws_inv_def ws_ok_def op_of_simps)
next
  case ws_c
  then show ?thesis using inv by (simp add: ws_inv_def ws_ok_def op_of_simps)
qed

lemma subst_inv_step:
  assumes inv: "subst_inv (i, j, os, cs)"
    and "i < length wordsO \<or> j < length wordsC"
    and "[] \<notin> set wordsO" and "[] \<notin> set wordsC"
  shows "subst_inv (body wordsO wordsC (i, j, os, cs))"
  using assms(2-4)
proof (cases rule: body_cases[where os = os and cs = cs])
  case subst
  then show ?thesis using inv
    by (simp add: subst_inv_def op_of_simps list_all2_appendI subst_pair_def text_of_def)
qed (use inv in \<open>simp_all add: subst_inv_def op_of_simps\<close>)


lemma text_of_children: "map children ns = map Some ts \<Longrightarrow> map text_of ns = ts"
proof (induction ns arbitrary: ts)
  case Nil
  then show ?case by simp
next
  case (Cons n ns)
  then obtain t ts' where "ts = t # ts'" "children n = Some t" "map children ns = map Some ts'"
    by (cases ts) auto
  with Cons.IH[of ts'] show ?case by (simp add: text_of_def)
qed

lemma match_subseq:
  assumes "map children ns = map Some ts"
  shows "subseq (map text_of (filter (\<lambda>n. op_of n = Some Match) ns)) ts"
proof -
  have "subseq (map text_of (filter (\<lambda>n. op_of n = Some Match) ns)) (map text_of ns)"
    by (intro subseq_map subseq_filter_left)
  then show ?thesis using text_of_children[OF assms] by simp
qed

text \<open>The diff on the scenarios of the specification.\<close>

lemma scenario_A:
  "getDiffSegments (js_of ''The cat sat'') (js_of ''The cat sit'') =
     Some ([\<lparr>key = ''match-0-0'', className = Some cls_match, children = Some (js_of ''The'')\<rparr>,
            \<lparr>key = ''match-1-1'', className = Some cls_match, children = Some (js_of '' '')\<rparr>,
            \<lparr>key = ''match-2-2'', className = Some cls_match, children = Some (js_of ''cat'')\<rparr>,
            \<lparr>key = ''match-3-3'', className = Some cls_match, children = Some (js_of '' '')\<rparr>,
            \<lparr>key = ''orig-err-4'', className = Some cls_orig, children = Some (js_of ''sat'')\<rparr>],
           [\<lparr>key = ''match-0-0'', className = Some cls_match, children = Some (js_of ''The'')\<rparr>,
            \<lparr>key = ''match-1-1'', className = Some cls_match, children = Some (js_of '' '')\<rparr>,
            \<lparr>key = ''match-2-2'', className = Some cls_match, children = Some (js_of ''cat'')\<rparr>,
            \<lparr>key = ''match-3-3'', className = Some cls_match, children = Some (js_of '' '')\<rparr>,
            \<lparr>key = ''corr-fix-4'', className = Some cls_corr, children = Some (js_of ''sit'')\<rparr>])"
  by code_simp

lemma scenario_D:
  "getDiffSegments (js_of ''a  b'') (js_of ''a b'') =
     Some ([\<lparr>key = ''match-0-0'', className = Some cls_match, children = Some (js_of ''a'')\<rparr>,
            \<lparr>key = ''ws-o-1'', className = None, children = Some (js_of ''  '')\<rparr>,
            \<lparr>key = ''match-2-2'', className = Some cls_match, children = Some (js_of ''b'')\<rparr>],
           [\<lparr>key = ''match-0-0'', className = Some cls_match, children = Some (js_of ''a'')\<rparr>,
            \<lparr>key = ''ws-c-1'', className = None, children = Some (js_of '' '')\<rparr>,
            \<lparr>key = ''match-2-2'', className = Some cls_match, children = Some (js_of ''b'')\<rparr>])"
  by code_simp

lemma scenario_B_ops:
  "map_option (\<lambda>(os, cs). (map op_of os, map text_of os, map op_of cs, map text_of cs))
     (getDiffSegments (js_of ''I like tea'') (js_of ''I really like tea'')) =
   Some ([Some Match, Some Match, Some Substitute, Some Match, Some Substitute],
         [js_of ''I'', js_of '' '', js_of ''like'', js_of '' '', js_of ''tea''],
         [Some Match, Some Match, Some Substitute, Some Match, Some Substitute,
          Some Insert, Some Insert],
         [js_of ''I'', js_of '' '', js_of ''really'', js_of '' '', js_of ''like'', js_of '' '',
          js_of ''tea''])"
  by code_simp

text \<open>
  Claim C4. For every pair of strings, a segment classified as Substitute never holds a
  whitespace token; a whitespace token is either a Match, which both lists share and which
  therefore pairs identical tokens only, or it is pushed without a style to one list as a
  Delete or an Insert of that whitespace token, never as a Substitute.
\<close>

theorem getDiffSegments_whitespace_policy:
  "\<exists>os cs. getDiffSegments original corrected = Some (os, cs)
     \<and> (\<forall>n \<in> set os \<union> set cs. op_of n = Some Substitute \<longrightarrow> trim (text_of n) \<noteq> [])
     \<and> (\<forall>n \<in> set os \<union> set cs. test_ws (text_of n) \<longrightarrow>
            op_of n = Some Match
            \<or> className n = None \<and> (op_of n = Some Delete \<or> op_of n = Some Insert))
     \<and> filter (\<lambda>n. op_of n = Some Match) os = filter (\<lambda>n. op_of n = Some Match) cs"
proof -
  let ?O = "tokenize original" and ?C = "tokenize corrected"
  let ?I = "\<lambda>st. ws_inv st \<and> match_inv st"
  have "\<exists>i j os cs. getDiffSegments original corrected = Some (os, cs) \<and> ?I (i, j, os, cs)
          \<and> length ?O \<le> i \<and> length ?C \<le> j"
  proof (rule getDiffSegments_rule)
    show "?I (0, 0, [], [])" by (simp add: ws_inv_def match_inv_def)
  next
    fix i j os cs
    assume a: "?I (i, j, os, cs)" "i < length ?O \<or> j < length ?C"
    have "ws_inv (body ?O ?C (i, j, os, cs))"
      using a by (intro ws_inv_step tokenize_nonempty) simp_all
    moreover have "match_inv (body ?O ?C (i, j, os, cs))"
      using a by (intro match_inv_step tokenize_nonempty) simp_all
    ultimately show "?I (body ?O ?C (i, j, os, cs))" by simp
  qed
  then obtain os cs where r: "getDiffSegments original corrected = Some (os, cs)"
    and w: "list_all ws_ok os" "list_all ws_ok cs"
    and m: "filter (\<lambda>n. op_of n = Some Match) os = filter (\<lambda>n. op_of n = Some Match) cs"
    by (auto simp: ws_inv_def match_inv_def)
  from w have "\<forall>n \<in> set os \<union> set cs. ws_ok n" by (auto simp: list_all_iff)
  then have "\<forall>n \<in> set os \<union> set cs. op_of n = Some Substitute \<longrightarrow> trim (text_of n) \<noteq> []"
    and "\<forall>n \<in> set os \<union> set cs. test_ws (text_of n) \<longrightarrow>
            op_of n = Some Match
            \<or> className n = None \<and> (op_of n = Some Delete \<or> op_of n = Some Insert)"
    unfolding ws_ok_def by blast+
  with r m show ?thesis by blast
qed

text \<open>
  Scenario D, \<^verbatim>\<open>"a  b"\<close> against \<^verbatim>\<open>"a b"\<close>: the double and the single space come out as
  an unstyled Delete and Insert pair. Scenario A, \<^verbatim>\<open>"The cat sat"\<close> against
  \<^verbatim>\<open>"The cat sit"\<close>: the Substitute holds a word.
\<close>

theorem getDiffSegments_whitespace_policy_witness:
  "getDiffSegments (js_of ''a  b'') (js_of ''a b'') =
     Some ([\<lparr>key = ''match-0-0'', className = Some cls_match, children = Some (js_of ''a'')\<rparr>,
            \<lparr>key = ''ws-o-1'', className = None, children = Some (js_of ''  '')\<rparr>,
            \<lparr>key = ''match-2-2'', className = Some cls_match, children = Some (js_of ''b'')\<rparr>],
           [\<lparr>key = ''match-0-0'', className = Some cls_match, children = Some (js_of ''a'')\<rparr>,
            \<lparr>key = ''ws-c-1'', className = None, children = Some (js_of '' '')\<rparr>,
            \<lparr>key = ''match-2-2'', className = Some cls_match, children = Some (js_of ''b'')\<rparr>])
   \<and> test_ws (text_of \<lparr>key = ''ws-o-1'', className = None, children = Some (js_of ''  '')\<rparr>)
   \<and> op_of \<lparr>key = ''ws-o-1'', className = None, children = Some (js_of ''  '')\<rparr> \<noteq> Some Substitute
   \<and> test_ws (text_of \<lparr>key = ''ws-c-1'', className = None, children = Some (js_of '' '')\<rparr>)
   \<and> op_of \<lparr>key = ''ws-c-1'', className = None, children = Some (js_of '' '')\<rparr> \<noteq> Some Substitute
   \<and> op_of \<lparr>key = ''orig-err-4'', className = Some cls_orig, children = Some (js_of ''sat'')\<rparr>
        = Some Substitute
   \<and> trim (text_of \<lparr>key = ''orig-err-4'', className = Some cls_orig,
                     children = Some (js_of ''sat'')\<rparr>) \<noteq> []"
proof -
  let ?wo = "\<lparr>key = ''ws-o-1'', className = None, children = Some (js_of ''  '')\<rparr>"
  let ?wc = "\<lparr>key = ''ws-c-1'', className = None, children = Some (js_of '' '')\<rparr>"
  let ?e = "\<lparr>key = ''orig-err-4'', className = Some cls_orig, children = Some (js_of ''sat'')\<rparr>"
  have two: "test_ws (js_of ''  '')" "test_ws (js_of '' '')"
    by (simp_all add: test_ws_def js_of_def is_space_def)
  then have ws: "test_ws (text_of ?wo)" "test_ws (text_of ?wc)"
    by (simp_all add: text_of_def)
  have sub: "op_of ?e = Some Substitute" by (simp add: op_of_def)
  have "op_of ?wo = Some Match
          \<or> className ?wo = None \<and> (op_of ?wo = Some Delete \<or> op_of ?wo = Some Insert)"
    and "op_of ?wc = Some Match
          \<or> className ?wc = None \<and> (op_of ?wc = Some Delete \<or> op_of ?wc = Some Insert)"
    using getDiffSegments_whitespace_policy[of "js_of ''a  b''" "js_of ''a b''"] ws
    unfolding scenario_D by auto
  then have "op_of ?wo \<noteq> Some Substitute" "op_of ?wc \<noteq> Some Substitute" by auto
  moreover have "trim (text_of ?e) \<noteq> []"
    using getDiffSegments_whitespace_policy[of "js_of ''The cat sat''" "js_of ''The cat sit''"] sub
    unfolding scenario_A by auto
  ultimately show ?thesis using scenario_D ws sub by simp
qed


section \<open>The alignment is positional\<close>

text \<open>
  Against claim C1: on \<^verbatim>\<open>"I like tea"\<close> and \<^verbatim>\<open>"I really like tea"\<close> the diff pairs
  \<^verbatim>\<open>like\<close> with \<^verbatim>\<open>really\<close> and \<^verbatim>\<open>tea\<close> with \<^verbatim>\<open>like\<close> as Substitutes and
  inserts \<^verbatim>\<open>" tea"\<close> at the end: four operations that are not a Match, where inserting
  \<^verbatim>\<open>"really "\<close> takes two.
\<close>

theorem getDiffSegments_not_minimal_counterexample:
  "getDiffSegments (js_of ''I like tea'') (js_of ''I really like tea'') =
     Some ([\<lparr>key = ''match-0-0'', className = Some cls_match, children = Some (js_of ''I'')\<rparr>,
            \<lparr>key = ''match-1-1'', className = Some cls_match, children = Some (js_of '' '')\<rparr>,
            \<lparr>key = ''orig-err-2'', className = Some cls_orig, children = Some (js_of ''like'')\<rparr>,
            \<lparr>key = ''match-3-3'', className = Some cls_match, children = Some (js_of '' '')\<rparr>,
            \<lparr>key = ''orig-err-4'', className = Some cls_orig, children = Some (js_of ''tea'')\<rparr>],
           [\<lparr>key = ''match-0-0'', className = Some cls_match, children = Some (js_of ''I'')\<rparr>,
            \<lparr>key = ''match-1-1'', className = Some cls_match, children = Some (js_of '' '')\<rparr>,
            \<lparr>key = ''corr-fix-2'', className = Some cls_corr, children = Some (js_of ''really'')\<rparr>,
            \<lparr>key = ''match-3-3'', className = Some cls_match, children = Some (js_of '' '')\<rparr>,
            \<lparr>key = ''corr-fix-4'', className = Some cls_corr, children = Some (js_of ''like'')\<rparr>,
            \<lparr>key = ''ws-c-5'', className = None, children = Some (js_of '' '')\<rparr>,
            \<lparr>key = ''corr-add-6'', className = Some cls_corr, children = Some (js_of ''tea'')\<rparr>])
   \<and> op_of \<lparr>key = ''orig-err-2'', className = Some cls_orig, children = Some (js_of ''like'')\<rparr>
        = Some Substitute
   \<and> op_of \<lparr>key = ''corr-fix-2'', className = Some cls_corr, children = Some (js_of ''really'')\<rparr>
        = Some Substitute"
  by code_simp

lemma positional_inv_step:
  assumes inv: "positional_inv wordsO wordsC (i, j, os, cs)"
    and kind: "\<forall>k < min (length wordsO) (length wordsC).
                 (trim (wordsO ! k) = []) = (trim (wordsC ! k) = [])"
    and cond: "i < length wordsO \<or> j < length wordsC"
    and ne: "[] \<notin> set wordsO" "[] \<notin> set wordsC"
  shows "positional_inv wordsO wordsC (body wordsO wordsC (i, j, os, cs))"
proof -
  let ?m = "min (length wordsO) (length wordsC)"
  from inv have len: "length os = i" "length cs = j"
    and ij: "i = j \<or> ?m \<le> i \<and> ?m \<le> j"
    and old: "\<And>k. k < min i ?m \<Longrightarrow>
                (op_of (os ! k) = Some Match) = (wordsO ! k = wordsC ! k)
                \<and> (op_of (cs ! k) = Some Match) = (wordsO ! k = wordsC ! k)"
    by (simp_all add: positional_inv_def)
  have both: "i = j \<and> i < ?m" if "i < length wordsO" "j < length wordsC"
    using that ij by auto
  have keep: "min (Suc i) ?m = min i ?m" if "?m \<le> i"
    using that by simp
  have oldO: "(op_of ((os @ [n]) ! k) = Some Match) = (wordsO ! k = wordsC ! k)"
    if "k < min i ?m" for k n
    using old[OF that] that len by (simp add: nth_append)
  have oldC: "(op_of ((cs @ [n]) ! k) = Some Match) = (wordsO ! k = wordsC ! k)"
    if "k < min i ?m" for k n
  proof -
    have "k < j" using that ij by auto
    then show ?thesis using old[OF that] len by (simp add: nth_append)
  qed
  have oldC': "(op_of (cs ! k) = Some Match) = (wordsO ! k = wordsC ! k)"
    if "k < min i ?m" for k
    using old[OF that] by simp
  have oldO': "(op_of (os ! k) = Some Match) = (wordsO ! k = wordsC ! k)"
    if "k < min i ?m" for k
    using old[OF that] by simp
  from cond ne show ?thesis
  proof (cases rule: body_cases[where os = os and cs = cs])
    case match
    from both[OF match(1,2)] have e: "i = j" "i < ?m" by simp_all
    have new: "wordsO ! i = wordsC ! i" using match(3) e by simp
    show ?thesis unfolding match(4) positional_inv_def
      using e len new oldO oldC
      by (auto simp: nth_append less_Suc_eq op_of_simps)
  next
    case subst
    from both[OF subst(1,2)] have e: "i = j" "i < ?m" by simp_all
    have new: "wordsO ! i \<noteq> wordsC ! i" using subst(3) e by simp
    show ?thesis unfolding subst(6) positional_inv_def
      using e len new oldO oldC
      by (auto simp: nth_append less_Suc_eq op_of_simps)
  next
    case ws_both
    from both[OF ws_both(1,2)] have e: "i = j" "i < ?m" by simp_all
    have new: "wordsO ! i \<noteq> wordsC ! i" using ws_both(3) e by simp
    show ?thesis unfolding ws_both(6) positional_inv_def
      using e len new oldO oldC
      by (auto simp: nth_append less_Suc_eq op_of_simps)
  next
    case del
    have nj: "\<not> j < length wordsC"
    proof
      assume j: "j < length wordsC"
      from both[OF del(1) j] have e: "i = j" "i < ?m" by simp_all
      have "trim (wordsC ! i) = []" using del(3) j e test_ws_trim by simp
      then show False using kind e del(2) by simp
    qed
    then have m: "?m \<le> i" "?m \<le> j" using ij by auto
    show ?thesis unfolding del(4) positional_inv_def
      using m len oldO oldC' by (auto simp: keep)
  next
    case add
    have ni: "\<not> i < length wordsO"
    proof
      assume i: "i < length wordsO"
      from both[OF i add(1)] have e: "i = j" "i < ?m" by simp_all
      have "trim (wordsO ! i) = []" using add(3) i test_ws_trim by simp
      then show False using kind e add(2) by simp
    qed
    then have m: "?m \<le> i" "?m \<le> j" using ij by auto
    show ?thesis unfolding add(4) positional_inv_def
      using m len oldO' oldC by (auto simp: keep)
  next
    case ws_o
    then have m: "?m \<le> i" "?m \<le> j" using ij by auto
    show ?thesis unfolding ws_o(4) positional_inv_def
      using m len oldO oldC' by (auto simp: keep)
  next
    case ws_c
    then have m: "?m \<le> i" "?m \<le> j" using ij by auto
    show ?thesis unfolding ws_c(4) positional_inv_def
      using m len oldO' oldC by (auto simp: keep)
  qed
qed

lemma positional_general:
  "\<exists>os cs. getDiffSegments original corrected = Some (os, cs)
      \<and> map children os = map Some (tokenize original)
      \<and> map children cs = map Some (tokenize corrected)
      \<and> filter (\<lambda>n. op_of n = Some Match) os = filter (\<lambda>n. op_of n = Some Match) cs
      \<and> subseq (map text_of (filter (\<lambda>n. op_of n = Some Match) os)) (tokenize original)
      \<and> subseq (map text_of (filter (\<lambda>n. op_of n = Some Match) cs)) (tokenize corrected)
      \<and> ((\<forall>k < min (length (tokenize original)) (length (tokenize corrected)).
              (trim (tokenize original ! k) = []) = (trim (tokenize corrected ! k) = []))
           \<longrightarrow> (\<forall>k < min (length (tokenize original)) (length (tokenize corrected)).
                  (op_of (os ! k) = Some Match) = (tokenize original ! k = tokenize corrected ! k)
                  \<and> (op_of (cs ! k) = Some Match)
                      = (tokenize original ! k = tokenize corrected ! k)))"
proof -
  let ?O = "tokenize original" and ?C = "tokenize corrected"
  let ?m = "min (length ?O) (length ?C)"
  let ?H = "\<forall>k < ?m. (trim (?O ! k) = []) = (trim (?C ! k) = [])"
  let ?I = "\<lambda>st. match_inv st \<and> children_inv ?O ?C st \<and> (?H \<longrightarrow> positional_inv ?O ?C st)"
  have "\<exists>i j os cs. getDiffSegments original corrected = Some (os, cs) \<and> ?I (i, j, os, cs)
          \<and> length ?O \<le> i \<and> length ?C \<le> j"
  proof (rule getDiffSegments_rule)
    show "?I (0, 0, [], [])"
      by (simp add: match_inv_def children_inv_def positional_inv_def)
  next
    fix i j os cs
    assume a: "?I (i, j, os, cs)" "i < length ?O \<or> j < length ?C"
    have "match_inv (body ?O ?C (i, j, os, cs))"
      using a by (intro match_inv_step tokenize_nonempty) simp_all
    moreover have "children_inv ?O ?C (body ?O ?C (i, j, os, cs))"
      using a by (intro children_inv_step tokenize_nonempty) simp_all
    moreover have "positional_inv ?O ?C (body ?O ?C (i, j, os, cs))" if h: ?H
    proof (rule positional_inv_step)
      show "positional_inv ?O ?C (i, j, os, cs)" using a h by simp
    qed (use h a in \<open>simp_all add: tokenize_nonempty\<close>)
    ultimately show "?I (body ?O ?C (i, j, os, cs))" by simp
  qed
  then obtain i j os cs where r: "getDiffSegments original corrected = Some (os, cs)"
    and I: "?I (i, j, os, cs)"
    and le: "length ?O \<le> i" "length ?C \<le> j"
    by blast
  from I have m: "filter (\<lambda>n. op_of n = Some Match) os = filter (\<lambda>n. op_of n = Some Match) cs"
    by (simp add: match_inv_def)
  from I have ch: "children_inv ?O ?C (i, j, os, cs)" by simp
  from I have pos: "positional_inv ?O ?C (i, j, os, cs)" if ?H using that by simp
  from ch le have c: "map children os = map Some ?O" "map children cs = map Some ?C"
    by (simp_all add: children_inv_def)
  have "\<forall>k < ?m. (op_of (os ! k) = Some Match) = (?O ! k = ?C ! k)
                \<and> (op_of (cs ! k) = Some Match) = (?O ! k = ?C ! k)" if h: ?H
  proof -
    show ?thesis using pos[OF h] le by (auto simp: positional_inv_def)
  qed
  then show ?thesis using r m c c[THEN match_subseq] by blast
qed

lemma tokens_B:
  "tokenize (js_of ''I like tea'') =
     [js_of ''I'', js_of '' '', js_of ''like'', js_of '' '', js_of ''tea'']"
  "tokenize (js_of ''I really like tea'') =
     [js_of ''I'', js_of '' '', js_of ''really'', js_of '' '', js_of ''like'', js_of '' '',
      js_of ''tea'']"
  by code_simp+

lemma trims_B:
  "trim (js_of ''I'') \<noteq> []" "trim (js_of '' '') = []" "trim (js_of ''like'') \<noteq> []"
  "trim (js_of ''really'') \<noteq> []" "trim (js_of ''tea'') \<noteq> []"
  by code_simp+

lemma like_really: "js_of ''like'' \<noteq> js_of ''really''"
  by code_simp

text \<open>
  Claim C1, amended. The diff is one left-to-right positional scan of the two token
  sequences, not a minimum-edit alignment. For every pair of strings it returns a valid
  alignment: each list carries the tokens of its string in order, the Match segments are the
  same in both lists, and their tokens form a common subsequence of the two token sequences,
  which need not be a longest one. The scan is positional: when the tokens at equal indices
  are of the same kind (both whitespace or both not), the token at index \<open>k\<close> of the
  original is compared with the token at index \<open>k\<close> of the corrected string and with no
  other, and the two segments at index \<open>k\<close> are a Match exactly when these two tokens
  are identical. On \<^verbatim>\<open>"I like tea"\<close> and \<^verbatim>\<open>"I really like tea"\<close> the result is
  Match \<^verbatim>\<open>I\<close>, Match of the space, Substitute of \<^verbatim>\<open>like\<close> by \<^verbatim>\<open>really\<close>, Match of the
  space, Substitute of \<^verbatim>\<open>tea\<close> by \<^verbatim>\<open>like\<close>, then Insert of a space and Insert of
  \<^verbatim>\<open>tea\<close>.
\<close>

theorem getDiffSegments_positional:
  "(\<exists>os cs. getDiffSegments original corrected = Some (os, cs)
      \<and> map children os = map Some (tokenize original)
      \<and> map children cs = map Some (tokenize corrected)
      \<and> filter (\<lambda>n. op_of n = Some Match) os = filter (\<lambda>n. op_of n = Some Match) cs
      \<and> subseq (map text_of (filter (\<lambda>n. op_of n = Some Match) os)) (tokenize original)
      \<and> subseq (map text_of (filter (\<lambda>n. op_of n = Some Match) cs)) (tokenize corrected)
      \<and> ((\<forall>k < min (length (tokenize original)) (length (tokenize corrected)).
              (trim (tokenize original ! k) = []) = (trim (tokenize corrected ! k) = []))
           \<longrightarrow> (\<forall>k < min (length (tokenize original)) (length (tokenize corrected)).
                  (op_of (os ! k) = Some Match) = (tokenize original ! k = tokenize corrected ! k)
                  \<and> (op_of (cs ! k) = Some Match)
                      = (tokenize original ! k = tokenize corrected ! k))))
   \<and> (\<exists>os cs. getDiffSegments (js_of ''I like tea'') (js_of ''I really like tea'') = Some (os, cs)
      \<and> map op_of os = [Some Match, Some Match, Some Substitute, Some Match, Some Substitute]
      \<and> map text_of os = [js_of ''I'', js_of '' '', js_of ''like'', js_of '' '', js_of ''tea'']
      \<and> map op_of cs = [Some Match, Some Match, Some Substitute, Some Match, Some Substitute,
                        Some Insert, Some Insert]
      \<and> map text_of cs = [js_of ''I'', js_of '' '', js_of ''really'', js_of '' '', js_of ''like'',
                          js_of '' '', js_of ''tea''])"
proof (rule conjI)
  show "\<exists>os cs. getDiffSegments (js_of ''I like tea'') (js_of ''I really like tea'') = Some (os, cs)
      \<and> map op_of os = [Some Match, Some Match, Some Substitute, Some Match, Some Substitute]
      \<and> map text_of os = [js_of ''I'', js_of '' '', js_of ''like'', js_of '' '', js_of ''tea'']
      \<and> map op_of cs = [Some Match, Some Match, Some Substitute, Some Match, Some Substitute,
                        Some Insert, Some Insert]
      \<and> map text_of cs = [js_of ''I'', js_of '' '', js_of ''really'', js_of '' '', js_of ''like'',
                          js_of '' '', js_of ''tea'']"
    using scenario_B_ops by (auto simp: map_option_case split: option.splits)
qed (rule positional_general)

text \<open>
  On \<^verbatim>\<open>"I like tea"\<close> and \<^verbatim>\<open>"I really like tea"\<close> the first five tokens of the two
  strings are of the same kind index by index; index 0 holds \<^verbatim>\<open>I\<close> twice and is a
  Match, index 2 holds \<^verbatim>\<open>like\<close> against \<^verbatim>\<open>really\<close> and is not.
\<close>

theorem getDiffSegments_positional_witness:
  "tokenize (js_of ''I like tea'') =
     [js_of ''I'', js_of '' '', js_of ''like'', js_of '' '', js_of ''tea'']
   \<and> tokenize (js_of ''I really like tea'') =
     [js_of ''I'', js_of '' '', js_of ''really'', js_of '' '', js_of ''like'', js_of '' '',
      js_of ''tea'']
   \<and> js_of ''like'' \<noteq> js_of ''really''
   \<and> (\<exists>os cs. getDiffSegments (js_of ''I like tea'') (js_of ''I really like tea'') = Some (os, cs)
        \<and> op_of (os ! 0) = Some Match \<and> op_of (cs ! 0) = Some Match
        \<and> op_of (os ! 2) \<noteq> Some Match \<and> op_of (cs ! 2) \<noteq> Some Match)"
proof -
  let ?A = "js_of ''I like tea''" and ?B = "js_of ''I really like tea''"
  have kind: "\<forall>k < min (length (tokenize ?A)) (length (tokenize ?B)).
                (trim (tokenize ?A ! k) = []) = (trim (tokenize ?B ! k) = [])"
    unfolding tokens_B
    by (simp add: eval_nat_numeral All_less_Suc trims_B)
  from getDiffSegments_positional[of ?A ?B, THEN conjunct1]
  obtain os cs where r: "getDiffSegments ?A ?B = Some (os, cs)"
    and imp: "(\<forall>k < min (length (tokenize ?A)) (length (tokenize ?B)).
                (trim (tokenize ?A ! k) = []) = (trim (tokenize ?B ! k) = []))
           \<longrightarrow> (\<forall>k < min (length (tokenize ?A)) (length (tokenize ?B)).
                  (op_of (os ! k) = Some Match) = (tokenize ?A ! k = tokenize ?B ! k)
                  \<and> (op_of (cs ! k) = Some Match) = (tokenize ?A ! k = tokenize ?B ! k))"
    by blast
  from imp kind have pos: "\<forall>k < min (length (tokenize ?A)) (length (tokenize ?B)).
                  (op_of (os ! k) = Some Match) = (tokenize ?A ! k = tokenize ?B ! k)
                  \<and> (op_of (cs ! k) = Some Match) = (tokenize ?A ! k = tokenize ?B ! k)"
    by (rule mp)
  have "op_of (os ! 0) = Some Match \<and> op_of (cs ! 0) = Some Match"
    using pos[rule_format, of 0] unfolding tokens_B by simp
  moreover have "op_of (os ! 2) \<noteq> Some Match \<and> op_of (cs ! 2) \<noteq> Some Match"
    using pos[rule_format, of 2] like_really unfolding tokens_B by simp
  ultimately show ?thesis using r tokens_B like_really by blast
qed

section \<open>No collapsing of Delete and Insert\<close>

text \<open>
  Against claim C5: on \<^verbatim>\<open>"x"\<close> and \<^verbatim>\<open>" y"\<close> the diff deletes the word \<^verbatim>\<open>x\<close>, inserts
  the space and then inserts the word \<^verbatim>\<open>y\<close>, with no Match in between; the Delete and the
  Insert stay as they are and no Substitute is produced.
\<close>

theorem getDiffSegments_no_collapse_counterexample:
  "getDiffSegments (js_of ''x'') (js_of '' y'') =
     Some ([\<lparr>key = ''orig-del-0'', className = Some cls_orig, children = Some (js_of ''x'')\<rparr>],
           [\<lparr>key = ''ws-c-0'', className = None, children = Some (js_of '' '')\<rparr>,
            \<lparr>key = ''corr-add-1'', className = Some cls_corr, children = Some (js_of ''y'')\<rparr>])
   \<and> op_of \<lparr>key = ''orig-del-0'', className = Some cls_orig, children = Some (js_of ''x'')\<rparr>
        = Some Delete
   \<and> op_of \<lparr>key = ''ws-c-0'', className = None, children = Some (js_of '' '')\<rparr> = Some Insert
   \<and> test_ws (js_of '' '')
   \<and> op_of \<lparr>key = ''corr-add-1'', className = Some cls_corr, children = Some (js_of ''y'')\<rparr>
        = Some Insert
   \<and> trim (js_of ''x'') \<noteq> [] \<and> trim (js_of ''y'') \<noteq> []"
  by code_simp

text \<open>
  Claim C5, amended. A Substitute is produced only as a pair, in the one iteration where two
  different non-whitespace tokens stand at the current positions: for every pair of strings
  the Substitute segments of the original list and those of the corrected list correspond
  one to one, in order, and each pair holds two different tokens, neither of them
  whitespace. No later pass re-classifies a Delete and an Insert.
\<close>

theorem getDiffSegments_substitute_pairs:
  "\<exists>os cs. getDiffSegments original corrected = Some (os, cs)
     \<and> list_all2 (\<lambda>a b. children a \<noteq> children b
                      \<and> trim (text_of a) \<noteq> [] \<and> trim (text_of b) \<noteq> [])
         (filter (\<lambda>n. op_of n = Some Substitute) os)
         (filter (\<lambda>n. op_of n = Some Substitute) cs)"
proof -
  have "\<exists>i j os cs. getDiffSegments original corrected = Some (os, cs) \<and> subst_inv (i, j, os, cs)
          \<and> length (tokenize original) \<le> i \<and> length (tokenize corrected) \<le> j"
  proof (rule getDiffSegments_rule)
    show "subst_inv (0, 0, [], [])" by (simp add: subst_inv_def)
  next
    fix i j os cs
    assume "subst_inv (i, j, os, cs)"
      "i < length (tokenize original) \<or> j < length (tokenize corrected)"
    then show "subst_inv (body (tokenize original) (tokenize corrected) (i, j, os, cs))"
      by (rule subst_inv_step) (rule tokenize_nonempty)+
  qed
  then obtain os cs where r: "getDiffSegments original corrected = Some (os, cs)"
    and "list_all2 subst_pair (filter (\<lambda>n. op_of n = Some Substitute) os)
           (filter (\<lambda>n. op_of n = Some Substitute) cs)"
    by (auto simp: subst_inv_def)
  then have "list_all2 (\<lambda>a b. children a \<noteq> children b
                      \<and> trim (text_of a) \<noteq> [] \<and> trim (text_of b) \<noteq> [])
         (filter (\<lambda>n. op_of n = Some Substitute) os)
         (filter (\<lambda>n. op_of n = Some Substitute) cs)"
    by (simp add: subst_pair_def[abs_def])
  with r show ?thesis by blast
qed

end
